theory Spec2Isabelle
  imports Main "HOL-Library.Word" "HOL-Library.Char_ord" "HOL-Library.List_Lexorder"
    "HOL-Library.AList"
begin

section \<open>The alerting scheduler of bosun: data model\<close>

text \<open>
  A shallow embedding of \<^verbatim>\<open>cmd/bosun/sched/sched.go\<close> and
  \<^verbatim>\<open>cmd/bosun/database/incident_data.go\<close>.

  \<^item> A \<^verbatim>\<open>time.Time\<close> is the instant it denotes, an integer; the zero
    \<^verbatim>\<open>time.Time{}\<close> is 0, \<^verbatim>\<open>Before\<close> is \<open><\<close>, \<^verbatim>\<open>After\<close> is \<open>>\<close>
    and \<^verbatim>\<open>Equal\<close> is \<open>=\<close>.
  \<^item> \<^verbatim>\<open>Status\<close> and \<^verbatim>\<open>ActionType\<close> are declared \<^verbatim>\<open>int\<close> in the source and
    stay integers here, with the named constants of the two \<^verbatim>\<open>iota\<close> blocks.
  \<^item> A Go string is a byte string and \<open><\<close> on it is the bytewise lexicographic order:
    \<open>string\<close> with the order of \<open>Char_ord\<close> and \<open>List_Lexorder\<close>.
  \<^item> \<^verbatim>\<open>uint64\<close> is \<open>64 word\<close>.
  \<^item> A Go map that the code ranges over is an association list: the first binding of a key
    is the map's binding, and a \<^verbatim>\<open>range\<close> loop visits the keys in the order of the list.
\<close>

type_synonym Time = int
type_synonym AlertKey = string
type_synonym Status = int
type_synonym ActionType = int
type_synonym TagSet = "(string \<times> string) list"

definition StNone :: Status where "StNone = 0"
definition StNormal :: Status where "StNormal = 1"
definition StWarning :: Status where "StWarning = 2"
definition StCritical :: Status where "StCritical = 3"
definition StUnknown :: Status where "StUnknown = 4"

definition ActionNone :: ActionType where "ActionNone = 0"
definition ActionAcknowledge :: ActionType where "ActionAcknowledge = 1"
definition ActionClose :: ActionType where "ActionClose = 2"
definition ActionForget :: ActionType where "ActionForget = 3"

lemmas Status_defs = StNone_def StNormal_def StWarning_def StCritical_def StUnknown_def
lemmas ActionType_defs = ActionNone_def ActionAcknowledge_def ActionClose_def ActionForget_def

definition ActionType_String :: "ActionType \<Rightarrow> string" where
  "ActionType_String a =
     (if a = ActionAcknowledge then ''Acknowledged''
      else if a = ActionClose then ''Closed''
      else if a = ActionForget then ''Forgotten''
      else ''none'')"

text \<open>\<^verbatim>\<open>Result\<close> wraps a pointer to the expression layer's result, kept as an opaque handle.\<close>

record Result =
  Value :: nat
  Expr :: string

record Action =
  User :: string
  Message :: string
  Time :: Time
  Type :: ActionType

record Event =
  Warn :: "Result option"
  Crit :: "Result option"
  Status :: Status
  Time :: Time
  Unevaluated :: bool
  IncidentId :: "64 word"

record State =
  Result :: "Result option"
  History :: "Event list"
  Actions :: "Action list"
  Touched :: Time
  Alert :: string
  Tags :: string
  Group :: TagSet
  Subject :: string
  Body :: string
  EmailBody :: string
  EmailSubject :: string
  Attachments :: "nat list"
  NeedAck :: bool
  Open :: bool
  Forgotten :: bool
  Unevaluated :: bool
  LastLogTime :: Time

record Incident =
  Id :: "64 word"
  Start :: Time
  End :: "Time option"
  AlertKey :: AlertKey

type_synonym States = "(AlertKey \<times> State) list"

text \<open>The fields of \<^verbatim>\<open>Schedule\<close> that the modelled methods read or write.\<close>

record Schedule =
  status :: States
  Incidents :: "64 word \<rightharpoonup> Incident"
  Notifications :: "AlertKey \<rightharpoonup> (string \<rightharpoonup> Time)"
  maxIncidentId :: "64 word"

section \<open>Methods of State\<close>

text \<open>The zero value \<^verbatim>\<open>Event{}\<close>.\<close>

definition Event_zero :: Event where
  "Event_zero = \<lparr>Warn = None, Crit = None, Status = 0, Time = 0,
     Unevaluated = False, IncidentId = 0\<rparr>"

definition State_Last :: "State \<Rightarrow> Event" where
  "State_Last s = (if length (History s) = 0 then Event_zero else last (History s))"

definition State_Status :: "State \<Rightarrow> Status" where
  "State_Status s = Status (State_Last s)"

text \<open>\<^verbatim>\<open>AbnormalEvent\<close> scans the history from its end; \<open>None\<close> is the nil pointer.\<close>

fun AbnormalEvent_scan :: "Event list \<Rightarrow> Event option" where
  "AbnormalEvent_scan [] = None"
| "AbnormalEvent_scan (ev # older) =
     (if Status ev > StNormal then Some ev else AbnormalEvent_scan older)"

definition State_AbnormalEvent :: "State \<Rightarrow> Event option" where
  "State_AbnormalEvent s = AbnormalEvent_scan (rev (History s))"

definition State_AbnormalStatus :: "State \<Rightarrow> Status" where
  "State_AbnormalStatus s =
     (case State_AbnormalEvent s of Some ev \<Rightarrow> Status ev | None \<Rightarrow> StNone)"

definition State_IsActive :: "State \<Rightarrow> bool" where
  "State_IsActive s = (State_Status s > StNormal)"

definition State_Action :: "string \<Rightarrow> string \<Rightarrow> ActionType \<Rightarrow> Time \<Rightarrow> State \<Rightarrow> State" where
  "State_Action user message t timestamp s =
     s\<lparr>Actions := Actions s @ [\<lparr>User = user, Message = message, Time = timestamp, Type = t\<rparr>]\<rparr>"

text \<open>\<^verbatim>\<open>Append\<close> returns the previous status together with the updated state.\<close>

definition State_Append :: "Event \<Rightarrow> State \<Rightarrow> Status \<times> State" where
  "State_Append event s =
     (let last = State_Last s in
      (Status last,
       if length (History s) = 0 \<or> Status last \<noteq> Status event
       then s\<lparr>History := History s @ [event]\<rparr> else s))"

section \<open>Schedule.Action\<close>

text \<open>
  \<^verbatim>\<open>st := s.status[ak]\<close> is a pointer into the store, so every write to \<^verbatim>\<open>st\<close> is a
  write to the store's entry as long as the entry is there. The model carries the schedule
  and the object \<^verbatim>\<open>st\<close> points to side by side and writes the object back with
  \<open>put_state\<close> wherever the source returns while the entry is still in the store. The
  result is the error (\<open>None\<close> for nil), the schedule after the call, and the final
  contents of the object \<^verbatim>\<open>st\<close> (\<open>None\<close> when the key has no state), which after a
  forget is no longer reachable from the store. \<^verbatim>\<open>time.Now().UTC()\<close> is the parameter
  \<open>now\<close>; the \<^verbatim>\<open>collect.Add\<close> counter is outside the scheduler state.
\<close>

definition put_state :: "AlertKey \<Rightarrow> State \<Rightarrow> Schedule \<Rightarrow> Schedule" where
  "put_state ak st s = s\<lparr>status := AList.update ak st (status s)\<rparr>"

text \<open>The closure \<^verbatim>\<open>ack\<close>.\<close>

definition ack :: "AlertKey \<Rightarrow> Schedule \<times> State \<Rightarrow> Schedule \<times> State" where
  "ack ak p = (case p of (s, st) \<Rightarrow>
     (s\<lparr>Notifications := (Notifications s)(ak := None)\<rparr>, st\<lparr>NeedAck := False\<rparr>))"

definition Schedule_Action ::
  "string \<Rightarrow> string \<Rightarrow> ActionType \<Rightarrow> AlertKey \<Rightarrow> Time \<Rightarrow> Schedule
     \<Rightarrow> string option \<times> Schedule \<times> State option" where
  "Schedule_Action user message t ak now s =
     (case map_of (status s) ak of
        None \<Rightarrow> (Some (''no such alert key: '' @ ak), s, None)
      | Some st \<Rightarrow>
          let isUnknown = (State_AbnormalStatus st = StUnknown);
              timestamp = now
          in
          if t = ActionAcknowledge then
            (if \<not> NeedAck st then (Some ''alert already acknowledged'', s, Some st)
             else if \<not> Open st then (Some ''cannot acknowledge closed alert'', s, Some st)
             else
               (case ack ak (s, st) of (s1, st1) \<Rightarrow>
                  let st2 = State_Action user message t timestamp st1
                  in (None, put_state ak st2 s1, Some st2)))
          else if t = ActionClose then
            (case (if NeedAck st then ack ak (s, st) else (s, st)) of (s1, st1) \<Rightarrow>
               if State_IsActive st1
               then (Some ''cannot close active alert'', put_state ak st1 s1, Some st1)
               else
                 let st2 = st1\<lparr>Open := False\<rparr>;
                     last = State_Last st2;
                     s2 = (if IncidentId last \<noteq> 0
                           then (case Incidents s1 (IncidentId last) of
                                   Some incident \<Rightarrow>
                                     s1\<lparr>Incidents := (Incidents s1)
                                          (IncidentId last \<mapsto> incident\<lparr>End := Some timestamp\<rparr>)\<rparr>
                                 | None \<Rightarrow> s1)
                           else s1);
                     st3 = State_Action user message t timestamp st2
                 in (None, put_state ak st3 s2, Some st3))
          else if t = ActionForget then
            (if \<not> isUnknown then (Some ''can only forget unknowns'', s, Some st)
             else
               (case (if NeedAck st then ack ak (s, st) else (s, st)) of (s1, st1) \<Rightarrow>
                  let st2 = st1\<lparr>Open := False, Forgotten := True\<rparr>;
                      s2 = s1\<lparr>status := AList.delete ak (status s1)\<rparr>;
                      st3 = State_Action user message t timestamp st2
                  in (None, s2, Some st3)))
          else (Some (''unknown action type: '' @ ActionType_String t), s, Some st))"

text \<open>Zero values, used as concrete inputs.\<close>

definition State_zero :: State where
  "State_zero = \<lparr>Result = None, History = [], Actions = [], Touched = 0, Alert = [],
     Tags = [], Group = [], Subject = [], Body = [], EmailBody = [], EmailSubject = [],
     Attachments = [], NeedAck = False, Open = False, Forgotten = False,
     Unevaluated = False, LastLogTime = 0\<rparr>"

definition mk_event :: "Status \<Rightarrow> Time \<Rightarrow> Event" where
  "mk_event st t = Event_zero\<lparr>Status := st, Time := t\<rparr>"

text \<open>
  Concrete schedules: an active, unacknowledged alert with a pending notification; an alert
  that has recovered inside incident 1; an unknown alert.
\<close>

definition AK1 :: AlertKey where "AK1 = ''cpu{host=a}''"

definition st_active :: State where
  "st_active = State_zero\<lparr>Alert := ''cpu'', Group := [(''host'', ''a'')],
     History := [mk_event StNormal 1, mk_event StCritical 2],
     NeedAck := True, Open := True\<rparr>"

definition sched_active :: Schedule where
  "sched_active = \<lparr>status = [(AK1, st_active)], Incidents = Map.empty,
     Notifications = [AK1 \<mapsto> [''email'' \<mapsto> 9]], maxIncidentId = 0\<rparr>"

definition inc1 :: Incident where
  "inc1 = \<lparr>Id = 1, Start = 2, End = None, AlertKey = AK1\<rparr>"

definition st_recovered :: State where
  "st_recovered = State_zero\<lparr>Alert := ''cpu'', Group := [(''host'', ''a'')],
     History := [mk_event StNormal 1, (mk_event StCritical 2)\<lparr>IncidentId := 1\<rparr>,
                 (mk_event StNormal 4)\<lparr>IncidentId := 1\<rparr>],
     NeedAck := False, Open := True\<rparr>"

definition sched_recovered :: Schedule where
  "sched_recovered = \<lparr>status = [(AK1, st_recovered)], Incidents = [1 \<mapsto> inc1],
     Notifications = Map.empty, maxIncidentId = 1\<rparr>"

definition st_unknown :: State where
  "st_unknown = State_zero\<lparr>Alert := ''cpu'', Group := [(''host'', ''a'')],
     History := [mk_event StUnknown 3], NeedAck := True, Open := True\<rparr>"

definition sched_unknown :: Schedule where
  "sched_unknown = \<lparr>status = [(AK1, st_unknown)], Incidents = Map.empty,
     Notifications = Map.empty, maxIncidentId = 0\<rparr>"

lemmas example_defs = AK1_def st_active_def sched_active_def inc1_def st_recovered_def
  sched_recovered_def st_unknown_def sched_unknown_def State_zero_def mk_event_def Event_zero_def

section \<open>Properties of State\<close>

text \<open>
  C10. For a state whose history is empty, \<^verbatim>\<open>Last()\<close> is the zero event (status none,
  zero time, incident id 0), so \<^verbatim>\<open>Status()\<close> is none and \<^verbatim>\<open>IsActive()\<close> is false,
  and \<^verbatim>\<open>Append\<close> of any event appends it and returns none as the previous status.
\<close>

theorem empty_history_last_append:
  assumes "History s = []"
  shows "State_Last s = Event_zero
    \<and> Status (State_Last s) = StNone \<and> Event.Time (State_Last s) = 0
    \<and> IncidentId (State_Last s) = 0
    \<and> State_Status s = StNone
    \<and> \<not> State_IsActive s
    \<and> State_Append ev s = (StNone, s\<lparr>History := [ev]\<rparr>)"
  using assms
  by (simp add: State_Last_def Event_zero_def State_Status_def State_IsActive_def
      State_Append_def Status_defs)

theorem empty_history_last_append_witness:
  "History State_zero = []
    \<and> State_Last State_zero = Event_zero
    \<and> State_Status State_zero = StNone
    \<and> \<not> State_IsActive State_zero
    \<and> State_Append (mk_event StCritical 7) State_zero
        = (StNone, State_zero\<lparr>History := [mk_event StCritical 7]\<rparr>)"
  using empty_history_last_append [of State_zero "mk_event StCritical 7"]
  by (simp add: State_zero_def)

section \<open>Properties of Schedule.Action\<close>

lemma IsActive_History:
  "History st' = History st \<Longrightarrow> State_IsActive st' = State_IsActive st"
  by (simp add: State_IsActive_def State_Status_def State_Last_def)

lemma NeedAck_idem: "\<not> NeedAck st \<Longrightarrow> st\<lparr>NeedAck := False\<rparr> = st"
  by (cases st) simp

lemma map_of_put_state: "map_of (status (put_state ak st s)) = (map_of (status s))(ak \<mapsto> st)"
  by (simp add: put_state_def update_conv')

lemma Close_inactive:
  assumes "map_of (status s) ak = Some st" and "\<not> State_IsActive st"
  shows "Schedule_Action user message ActionClose ak now s =
    (None,
     put_state ak (State_Action user message ActionClose now (st\<lparr>NeedAck := False, Open := False\<rparr>))
       ((if IncidentId (State_Last st) \<noteq> 0
         then (case Incidents s (IncidentId (State_Last st)) of
                 Some incident \<Rightarrow>
                   s\<lparr>Incidents := (Incidents s)
                        (IncidentId (State_Last st) \<mapsto> incident\<lparr>End := Some now\<rparr>)\<rparr>
               | None \<Rightarrow> s)
         else s)\<lparr>Notifications := (if NeedAck st then (Notifications s)(ak := None) else Notifications s)\<rparr>),
     Some (State_Action user message ActionClose now (st\<lparr>NeedAck := False, Open := False\<rparr>)))"
proof (cases "NeedAck st")
  case True
  have na: "\<not> State_IsActive (st\<lparr>NeedAck := False\<rparr>)"
    using assms(2) IsActive_History [of "st\<lparr>NeedAck := False\<rparr>" st] by simp
  show ?thesis using assms(1) True na
    by (simp add: Schedule_Action_def ActionType_defs ack_def Let_def State_Last_def put_state_def
        split: option.splits)
next
  case False
  show ?thesis using assms False
    by (simp add: Schedule_Action_def ActionType_defs ack_def Let_def State_Last_def put_state_def NeedAck_idem
        split: option.splits)
qed

lemma IsActive_iff: "State_IsActive st \<longleftrightarrow> Status (State_Last st) > StNormal"
  by (simp add: State_IsActive_def State_Status_def)

lemma Close_active:
  assumes "map_of (status s) ak = Some st" and "State_IsActive st"
  shows "Schedule_Action user message ActionClose ak now s =
    (Some ''cannot close active alert'',
     (if NeedAck st
      then put_state ak (st\<lparr>NeedAck := False\<rparr>) (s\<lparr>Notifications := (Notifications s)(ak := None)\<rparr>)
      else put_state ak st s),
     Some (st\<lparr>NeedAck := False\<rparr>))"
proof -
  have na: "State_IsActive (st\<lparr>NeedAck := False\<rparr>)"
    using assms(2) IsActive_History [of "st\<lparr>NeedAck := False\<rparr>" st] by simp
  show ?thesis using assms na
    by (simp add: Schedule_Action_def ActionType_defs ack_def Let_def NeedAck_idem)
qed

lemma Close_inactive_props:
  assumes "map_of (status s) ak = Some st" and "\<not> State_IsActive st"
  shows "\<exists>s'. Schedule_Action user message ActionClose ak now s =
      (None, s', Some (State_Action user message ActionClose now (st\<lparr>NeedAck := False, Open := False\<rparr>)))
    \<and> map_of (status s') ak =
        Some (State_Action user message ActionClose now (st\<lparr>NeedAck := False, Open := False\<rparr>))
    \<and> (\<forall>incident. IncidentId (State_Last st) \<noteq> 0
          \<and> Incidents s (IncidentId (State_Last st)) = Some incident
          \<longrightarrow> Incidents s' (IncidentId (State_Last st)) = Some (incident\<lparr>End := Some now\<rparr>))"
  unfolding Close_inactive [OF assms]
  by (cases "Incidents s (IncidentId (State_Last st))")
     (simp_all add: put_state_def update_conv')

text \<open>
  C6. For a state in the store whose last event's status is not greater than normal, a
  close succeeds: \<^verbatim>\<open>Open\<close> becomes false, a close action with the call's timestamp is
  appended to \<^verbatim>\<open>Actions\<close>, and when the last event's incident id is not 0 and the
  registry has that incident, its \<^verbatim>\<open>End\<close> becomes the timestamp; a second close on the
  resulting schedule succeeds again and \<^verbatim>\<open>Open\<close> stays false. When the last status is
  greater than normal the close returns "cannot close active alert".
\<close>

theorem close_action:
  assumes "map_of (status s) ak = Some st"
  shows "(\<not> Status (State_Last st) > StNormal \<longrightarrow>
      (\<exists>s' st'. Schedule_Action user message ActionClose ak now s = (None, s', Some st')
         \<and> map_of (status s') ak = Some st'
         \<and> Open st' = False
         \<and> Actions st' = Actions st
              @ [\<lparr>User = user, Message = message, Time = now, Type = ActionClose\<rparr>]
         \<and> (\<forall>incident. IncidentId (State_Last st) \<noteq> 0
               \<and> Incidents s (IncidentId (State_Last st)) = Some incident
               \<longrightarrow> Incidents s' (IncidentId (State_Last st))
                     = Some (incident\<lparr>End := Some now\<rparr>))
         \<and> (\<exists>s'' st''. Schedule_Action user2 message2 ActionClose ak now2 s'
                 = (None, s'', Some st'')
               \<and> map_of (status s'') ak = Some st'' \<and> Open st'' = False)))
    \<and> (Status (State_Last st) > StNormal \<longrightarrow>
         fst (Schedule_Action user message ActionClose ak now s)
           = Some ''cannot close active alert'')"
proof (intro conjI impI)
  assume "\<not> Status (State_Last st) > StNormal"
  then have inact: "\<not> State_IsActive st" by (simp add: IsActive_iff)
  define st' where "st' = State_Action user message ActionClose now (st\<lparr>NeedAck := False, Open := False\<rparr>)"
  obtain s' where 1: "Schedule_Action user message ActionClose ak now s = (None, s', Some st')"
    and 2: "map_of (status s') ak = Some st'"
    and 3: "\<forall>incident. IncidentId (State_Last st) \<noteq> 0
               \<and> Incidents s (IncidentId (State_Last st)) = Some incident
               \<longrightarrow> Incidents s' (IncidentId (State_Last st))
                     = Some (incident\<lparr>End := Some now\<rparr>)"
    using Close_inactive_props [OF assms inact, of user message now] unfolding st'_def by blast
  have inact': "\<not> State_IsActive st'"
    using inact IsActive_History [of st' st] by (simp add: st'_def State_Action_def)
  define st'' where "st'' = State_Action user2 message2 ActionClose now2 (st'\<lparr>NeedAck := False, Open := False\<rparr>)"
  obtain s'' where 4: "Schedule_Action user2 message2 ActionClose ak now2 s' = (None, s'', Some st'')"
    and 5: "map_of (status s'') ak = Some st''"
    using Close_inactive_props [OF 2 inact', of user2 message2 now2] unfolding st''_def by blast
  have 6: "Open st' = False" "Open st'' = False"
    "Actions st' = Actions st @ [\<lparr>User = user, Message = message, Time = now, Type = ActionClose\<rparr>]"
    by (simp_all add: st'_def st''_def State_Action_def)
  show "\<exists>s' st'. Schedule_Action user message ActionClose ak now s = (None, s', Some st')
         \<and> map_of (status s') ak = Some st'
         \<and> Open st' = False
         \<and> Actions st' = Actions st
              @ [\<lparr>User = user, Message = message, Time = now, Type = ActionClose\<rparr>]
         \<and> (\<forall>incident. IncidentId (State_Last st) \<noteq> 0
               \<and> Incidents s (IncidentId (State_Last st)) = Some incident
               \<longrightarrow> Incidents s' (IncidentId (State_Last st))
                     = Some (incident\<lparr>End := Some now\<rparr>))
         \<and> (\<exists>s'' st''. Schedule_Action user2 message2 ActionClose ak now2 s'
                 = (None, s'', Some st'')
               \<and> map_of (status s'') ak = Some st'' \<and> Open st'' = False)"
    apply (rule exI [of _ s'], rule exI [of _ st'])
    using 1 2 3 4 5 6 by blast
next
  assume "Status (State_Last st) > StNormal"
  then have "State_IsActive st" by (simp add: IsActive_iff)
  from Close_active [OF assms this] show "fst (Schedule_Action user message ActionClose ak now s)
           = Some ''cannot close active alert''" by simp
qed

theorem close_action_witness:
  "map_of (status sched_recovered) AK1 = Some st_recovered
   \<and> \<not> Status (State_Last st_recovered) > StNormal
   \<and> fst (Schedule_Action ''u'' ''m'' ActionClose AK1 5 sched_recovered) = None
   \<and> (\<exists>s' st'. Schedule_Action ''u'' ''m'' ActionClose AK1 5 sched_recovered = (None, s', Some st')
        \<and> Open st' = False
        \<and> Incidents s' 1 = Some (inc1\<lparr>End := Some 5\<rparr>)
        \<and> fst (Schedule_Action ''v'' ''again'' ActionClose AK1 6 s') = None)
   \<and> map_of (status sched_active) AK1 = Some st_active
   \<and> Status (State_Last st_active) > StNormal
   \<and> fst (Schedule_Action ''u'' ''m'' ActionClose AK1 5 sched_active)
       = Some ''cannot close active alert''"
proof -
  have 1: "map_of (status sched_recovered) AK1 = Some st_recovered"
    by (simp add: sched_recovered_def)
  have 2: "\<not> Status (State_Last st_recovered) > StNormal"
    by (simp add: State_Last_def st_recovered_def mk_event_def Status_defs)
  have 3: "IncidentId (State_Last st_recovered) = 1"
    by (simp add: State_Last_def st_recovered_def)
  have 4: "Incidents sched_recovered 1 = Some inc1"
    by (simp add: sched_recovered_def)
  have 5: "map_of (status sched_active) AK1 = Some st_active"
    by (simp add: sched_active_def)
  have 6: "Status (State_Last st_active) > StNormal"
    by (simp add: State_Last_def st_active_def mk_event_def Status_defs)
  from close_action [OF 1, of "''u''" "''m''" 5 "''v''" "''again''" 6] 2 3 4
  have A: "\<exists>s' st'. Schedule_Action ''u'' ''m'' ActionClose AK1 5 sched_recovered = (None, s', Some st')
        \<and> Open st' = False
        \<and> Incidents s' 1 = Some (inc1\<lparr>End := Some 5\<rparr>)
        \<and> fst (Schedule_Action ''v'' ''again'' ActionClose AK1 6 s') = None"
    by fastforce
  then have B: "fst (Schedule_Action ''u'' ''m'' ActionClose AK1 5 sched_recovered) = None"
    by auto
  from close_action [OF 5, of "''u''" "''m''" 5] 6
  have C: "fst (Schedule_Action ''u'' ''m'' ActionClose AK1 5 sched_active)
       = Some ''cannot close active alert''" by blast
  show ?thesis using 1 2 A B 5 6 C by blast
qed

lemma Forget_unknown:
  assumes "map_of (status s) ak = Some st" and "State_AbnormalStatus st = StUnknown"
  shows "Schedule_Action user message ActionForget ak now s =
    (None,
     s\<lparr>Notifications := (if NeedAck st then (Notifications s)(ak := None) else Notifications s),
        status := AList.delete ak (status s)\<rparr>,
     Some (State_Action user message ActionForget now
        (st\<lparr>NeedAck := False, Open := False, Forgotten := True\<rparr>)))"
  using assms
  by (cases "NeedAck st")
     (simp_all add: Schedule_Action_def ActionType_defs ack_def Let_def NeedAck_idem)

lemma Forget_not_unknown:
  assumes "map_of (status s) ak = Some st" and "State_AbnormalStatus st \<noteq> StUnknown"
  shows "Schedule_Action user message ActionForget ak now s =
    (Some ''can only forget unknowns'', s, Some st)"
  using assms by (simp add: Schedule_Action_def ActionType_defs Let_def)

lemma Action_no_key:
  assumes "map_of (status s) ak = None"
  shows "Schedule_Action user message t ak now s = (Some (''no such alert key: '' @ ak), s, None)"
  using assms by (simp add: Schedule_Action_def)

text \<open>
  C7. For a state in the store, a forget succeeds exactly when \<^verbatim>\<open>AbnormalStatus()\<close> is
  unknown. On success the state object has \<^verbatim>\<open>Open\<close> false and \<^verbatim>\<open>Forgotten\<close> true, the
  key is gone from the store, and any later action on that key fails with
  "no such alert key"; otherwise the call returns "can only forget unknowns".
\<close>

theorem forget_action:
  assumes "map_of (status s) ak = Some st"
  shows "(fst (Schedule_Action user message ActionForget ak now s) = None
            \<longleftrightarrow> State_AbnormalStatus st = StUnknown)
    \<and> (State_AbnormalStatus st = StUnknown \<longrightarrow>
         (\<exists>s' st'. Schedule_Action user message ActionForget ak now s = (None, s', Some st')
            \<and> Open st' = False \<and> Forgotten st' = True
            \<and> map_of (status s') ak = None
            \<and> (\<forall>user2 message2 t2 now2.
                  fst (Schedule_Action user2 message2 t2 ak now2 s')
                    = Some (''no such alert key: '' @ ak))))
    \<and> (State_AbnormalStatus st \<noteq> StUnknown \<longrightarrow>
         fst (Schedule_Action user message ActionForget ak now s)
           = Some ''can only forget unknowns'')"
proof (cases "State_AbnormalStatus st = StUnknown")
  case True
  let ?s' = "s\<lparr>Notifications := (if NeedAck st then (Notifications s)(ak := None) else Notifications s),
        status := AList.delete ak (status s)\<rparr>"
  have gone: "map_of (status ?s') ak = None" by (simp add: delete_conv')
  show ?thesis
    using True Forget_unknown [OF assms True, of user message now] Action_no_key [OF gone] gone
    by (simp add: State_Action_def)
next
  case False
  then show ?thesis using Forget_not_unknown [OF assms False, of user message now] by simp
qed

theorem forget_action_witness:
  "map_of (status sched_unknown) AK1 = Some st_unknown
   \<and> State_AbnormalStatus st_unknown = StUnknown
   \<and> fst (Schedule_Action ''u'' ''m'' ActionForget AK1 5 sched_unknown) = None
   \<and> (\<exists>s' st'. Schedule_Action ''u'' ''m'' ActionForget AK1 5 sched_unknown = (None, s', Some st')
        \<and> Open st' = False \<and> Forgotten st' = True \<and> map_of (status s') AK1 = None)
   \<and> map_of (status sched_active) AK1 = Some st_active
   \<and> State_AbnormalStatus st_active \<noteq> StUnknown
   \<and> fst (Schedule_Action ''u'' ''m'' ActionForget AK1 5 sched_active)
       = Some ''can only forget unknowns''"
proof -
  have 1: "map_of (status sched_unknown) AK1 = Some st_unknown"
    by (simp add: sched_unknown_def)
  have 2: "State_AbnormalStatus st_unknown = StUnknown"
    by (simp add: State_AbnormalStatus_def State_AbnormalEvent_def st_unknown_def mk_event_def
        Status_defs)
  have 5: "map_of (status sched_active) AK1 = Some st_active"
    by (simp add: sched_active_def)
  have 6: "State_AbnormalStatus st_active \<noteq> StUnknown"
    by (simp add: State_AbnormalStatus_def State_AbnormalEvent_def st_active_def mk_event_def
        Status_defs)
  from forget_action [OF 1, of "''u''" "''m''" 5] 2
  have A: "\<exists>s' st'. Schedule_Action ''u'' ''m'' ActionForget AK1 5 sched_unknown = (None, s', Some st')
        \<and> Open st' = False \<and> Forgotten st' = True \<and> map_of (status s') AK1 = None"
    and B: "fst (Schedule_Action ''u'' ''m'' ActionForget AK1 5 sched_unknown) = None"
    by blast+
  from forget_action [OF 5, of "''u''" "''m''" 5] 6
  have C: "fst (Schedule_Action ''u'' ''m'' ActionForget AK1 5 sched_active)
       = Some ''can only forget unknowns''" by blast
  show ?thesis using 1 2 A B 5 6 C by blast
qed

text \<open>
  An action that returns an error leaves the schedule and the addressed state as they
  were in every case but one: a close of a state with \<^verbatim>\<open>NeedAck\<close> set.
\<close>

lemma Action_error_elsewhere_unchanged:
  assumes "Schedule_Action user message t ak now s = (Some e, s', st')"
    and "t \<noteq> ActionClose \<or> (\<forall>st. map_of (status s) ak = Some st \<longrightarrow> \<not> NeedAck st)"
  shows "s' = s \<and> st' = map_of (status s) ak"
proof (cases "map_of (status s) ak")
  case None
  then show ?thesis using assms(1) by (simp add: Schedule_Action_def)
next
  case (Some st)
  have put: "put_state ak st s = s"
    using Some by (simp add: put_state_def update_triv)
  show ?thesis
  proof (cases "t = ActionClose")
    case True
    with assms(2) Some have "\<not> NeedAck st" by simp
    with assms(1) Some True put show ?thesis
      by (simp add: Schedule_Action_def ActionType_defs Let_def split: if_splits)
  next
    case False
    with assms(1) Some show ?thesis
      by (auto simp: Schedule_Action_def Let_def ack_def split: if_splits)
  qed
qed

text \<open>
  C1. The claim is that every call of \<^verbatim>\<open>Schedule.Action\<close> that returns an error leaves
  the scheduler state unchanged. The close branch runs \<^verbatim>\<open>ack()\<close> before it tests
  \<^verbatim>\<open>IsActive()\<close>: on an active state with \<^verbatim>\<open>NeedAck\<close> set, the call returns
  "cannot close active alert" after it has cleared \<^verbatim>\<open>NeedAck\<close> and deleted the key's
  entry of \<^verbatim>\<open>Notifications\<close>. The acknowledge and forget branches test first.
\<close>

theorem close_active_needack_mutates:
  "map_of (status sched_active) AK1 = Some st_active
   \<and> NeedAck st_active
   \<and> Notifications sched_active AK1 = Some [''email'' \<mapsto> 9]
   \<and> Schedule_Action ''u'' ''m'' ActionClose AK1 5 sched_active
       = (Some ''cannot close active alert'',
          sched_active\<lparr>status := [(AK1, st_active\<lparr>NeedAck := False\<rparr>)],
                        Notifications := Map.empty\<rparr>,
          Some (st_active\<lparr>NeedAck := False\<rparr>))
   \<and> Notifications (fst (snd (Schedule_Action ''u'' ''m'' ActionClose AK1 5 sched_active))) AK1
       = None
   \<and> fst (snd (Schedule_Action ''u'' ''m'' ActionClose AK1 5 sched_active)) \<noteq> sched_active"
proof -
  have 1: "map_of (status sched_active) AK1 = Some st_active"
    by (simp add: sched_active_def)
  have 2: "State_IsActive st_active"
    by (simp add: State_IsActive_def State_Status_def State_Last_def st_active_def
        mk_event_def Status_defs)
  have 3: "NeedAck st_active" by (simp add: st_active_def)
  have 4: "Schedule_Action ''u'' ''m'' ActionClose AK1 5 sched_active
       = (Some ''cannot close active alert'',
          sched_active\<lparr>status := [(AK1, st_active\<lparr>NeedAck := False\<rparr>)],
                        Notifications := Map.empty\<rparr>,
          Some (st_active\<lparr>NeedAck := False\<rparr>))"
    unfolding Close_active [OF 1 2] using 3
    by (simp add: put_state_def sched_active_def)
  have 5: "Notifications sched_active AK1 = Some [''email'' \<mapsto> 9]"
    by (simp add: sched_active_def)
  have 6: "sched_active\<lparr>status := [(AK1, st_active\<lparr>NeedAck := False\<rparr>)],
                        Notifications := Map.empty\<rparr> \<noteq> sched_active"
  proof
    assume "sched_active\<lparr>status := [(AK1, st_active\<lparr>NeedAck := False\<rparr>)],
                        Notifications := Map.empty\<rparr> = sched_active"
    then have "Notifications (sched_active\<lparr>status := [(AK1, st_active\<lparr>NeedAck := False\<rparr>)],
                        Notifications := Map.empty\<rparr>) AK1 = Notifications sched_active AK1"
      by simp
    with 5 show False by simp
  qed
  show ?thesis unfolding 4 using 1 3 5 6 by simp
qed

section \<open>The data-access layer: incident keys\<close>

text \<open>
  \<^verbatim>\<open>fmt.Sprint\<close> writes its operands in their default formats one after the other, with
  a space between two operands only when neither is a string; it does not interpret verbs.
  The default format of a \<^verbatim>\<open>uint64\<close> is its decimal numeral.
\<close>

definition digit :: "nat \<Rightarrow> char" where
  "digit d = ''0123456789'' ! d"

fun decimal :: "nat \<Rightarrow> string" where
  "decimal n = (if n < 10 then [digit n] else decimal (n div 10) @ [digit (n mod 10)])"

declare decimal.simps [simp del]

definition Sprint_string_uint64 :: "string \<Rightarrow> 64 word \<Rightarrow> string" where
  "Sprint_string_uint64 a b = a @ decimal (unat b)"

definition incidentKey :: "64 word \<Rightarrow> string" where
  "incidentKey iid = Sprint_string_uint64 ''incident:%d'' iid"

text \<open>
  The store behind \<^verbatim>\<open>conn.Do\<close>: a value is an integer counter or the bytes of a
  marshalled incident, kept as the incident. \<^verbatim>\<open>INCR\<close> creates a missing counter at 1.
  \<^verbatim>\<open>CreateIncident\<close> sets \<^verbatim>\<open>Start\<close> from \<^verbatim>\<open>time.Now()\<close>, the parameter \<open>now\<close>.
\<close>

datatype RedisValue = Counter int | Raw Incident

type_synonym Redis = "string \<rightharpoonup> RedisValue"

definition redis_INCR :: "string \<Rightarrow> Redis \<Rightarrow> (string + int) \<times> Redis" where
  "redis_INCR key db =
     (case db key of
        None \<Rightarrow> (Inr 1, db(key \<mapsto> Counter 1))
      | Some (Counter n) \<Rightarrow>
          if n + 1 < 2 ^ 63 then (Inr (n + 1), db(key \<mapsto> Counter (n + 1)))
          else (Inl ''ERR increment or decrement would overflow'', db)
      | Some (Raw _) \<Rightarrow> (Inl ''ERR value is not an integer or out of range'', db))"

definition saveIncident :: "64 word \<Rightarrow> Incident \<Rightarrow> Redis \<Rightarrow> Redis" where
  "saveIncident iid i db = db(incidentKey iid \<mapsto> Raw i)"

definition CreateIncident :: "AlertKey \<Rightarrow> Time \<Rightarrow> Time \<Rightarrow> Redis \<Rightarrow> (string + Incident) \<times> Redis" where
  "CreateIncident ak start now db =
     (case redis_INCR ''maxIncidentId'' db of
        (Inl err, db1) \<Rightarrow> (Inl err, db1)
      | (Inr iid, db1) \<Rightarrow>
          let incident = \<lparr>Id = word_of_int iid, Start = now, End = None, AlertKey = ak\<rparr>
          in (Inr incident, saveIncident (Id incident) incident db1))"

text \<open>
  C4. The claim is that an incident is stored under "incident:" followed by the decimal id,
  so that id 42 has the key "incident:42", with the id taken from an \<^verbatim>\<open>INCR\<close> of
  "maxIncidentId". \<^verbatim>\<open>incidentKey\<close> calls \<^verbatim>\<open>fmt.Sprint\<close>, not \<^verbatim>\<open>fmt.Sprintf\<close>: the
  verb stays in the key, which for id 42 is "incident:%d42". The counter is as claimed.
\<close>

theorem incidentKey_format:
  "incidentKey 42 = ''incident:%d42'' \<and> incidentKey 42 \<noteq> ''incident:42''
   \<and> snd (CreateIncident AK1 7 8 Map.empty) ''incident:1'' = None
   \<and> snd (CreateIncident AK1 7 8 Map.empty) ''incident:%d1''
       = Some (Raw \<lparr>Id = 1, Start = 8, End = None, AlertKey = AK1\<rparr>)
   \<and> snd (CreateIncident AK1 7 8 Map.empty) ''maxIncidentId'' = Some (Counter 1)"
  by (simp add: incidentKey_def Sprint_string_uint64_def decimal.simps digit_def
      CreateIncident_def redis_INCR_def saveIncident_def Let_def)

section \<open>Schedule.GetIncidentEvents\<close>

text \<open>
  Modelled from the spec: \<^verbatim>\<open>Schedule.GetStatus\<close> is not among the source files. The
  state store "maps each alert key to its State", and \<^verbatim>\<open>GetIncidentEvents\<close> tests the
  result against nil, so \<^verbatim>\<open>GetStatus\<close> is the lookup of the key in the store.
\<close>

definition Schedule_GetStatus :: "Schedule \<Rightarrow> AlertKey \<Rightarrow> State option" where
  "Schedule_GetStatus s ak = map_of (status s) ak"

text \<open>The loop over the history, with its flag \<^verbatim>\<open>found\<close>.\<close>

fun incident_events :: "64 word \<Rightarrow> bool \<Rightarrow> Event list \<Rightarrow> Event list" where
  "incident_events iid found [] = []"
| "incident_events iid found (e # es) =
     (if IncidentId e = iid then e # incident_events iid True es
      else if found then []
      else incident_events iid found es)"

text \<open>The condition under which an action is appended. A nil and an empty slice are \<open>[]\<close>.\<close>

definition incident_action :: "Incident \<Rightarrow> Action \<Rightarrow> bool" where
  "incident_action incident a =
     (Action.Time a > Start incident
      \<and> (case End incident of
            None \<Rightarrow> True
          | Some e \<Rightarrow> Action.Time a < e \<or> Action.Time a = e))"

definition Schedule_GetIncidentEvents ::
  "Schedule \<Rightarrow> 64 word \<Rightarrow> string + Incident \<times> Event list \<times> Action list" where
  "Schedule_GetIncidentEvents s iid =
     (case Incidents s iid of
        None \<Rightarrow> Inl (''incident '' @ decimal (unat iid) @ '' not found'')
      | Some incident \<Rightarrow>
          (case Schedule_GetStatus s (AlertKey incident) of
             None \<Rightarrow> Inr (incident, [], [])
           | Some state \<Rightarrow>
               Inr (incident,
                    incident_events iid False (History state),
                    filter (incident_action incident) (Actions state))))"

definition st_acted :: State where
  "st_acted = st_recovered\<lparr>Actions :=
     [\<lparr>User = ''u'', Message = ''at start'', Time = 2, Type = ActionAcknowledge\<rparr>,
      \<lparr>User = ''u'', Message = ''inside'', Time = 3, Type = ActionNone\<rparr>,
      \<lparr>User = ''u'', Message = ''at end'', Time = 5, Type = ActionClose\<rparr>,
      \<lparr>User = ''u'', Message = ''after'', Time = 6, Type = ActionNone\<rparr>]\<rparr>"

definition sched_acted :: Schedule where
  "sched_acted = \<lparr>status = [(AK1, st_acted)],
     Incidents = [1 \<mapsto> inc1\<lparr>End := Some 5\<rparr>],
     Notifications = Map.empty, maxIncidentId = 1\<rparr>"

lemma incident_events_found:
  "incident_events iid True es = takeWhile (\<lambda>e. IncidentId e = iid) es"
  by (induction es) simp_all

lemma incident_events_run:
  "incident_events iid False es
     = takeWhile (\<lambda>e. IncidentId e = iid) (dropWhile (\<lambda>e. IncidentId e \<noteq> iid) es)"
  by (induction es) (simp_all add: incident_events_found)

text \<open>
  C3, as stated, with a closed interval: an action at the incident's \<^verbatim>\<open>Start\<close> would be
  returned. The code tests \<^verbatim>\<open>a.Time.After(incident.Start)\<close>, so it is not: of four
  actions at times 2, 3, 5 and 6 on an incident from 2 to 5, those at 3 and 5 are returned.
\<close>

theorem action_at_start_excluded:
  "Incidents sched_acted 1 = Some (inc1\<lparr>End := Some 5\<rparr>)
   \<and> Schedule_GetStatus sched_acted AK1 = Some st_acted
   \<and> \<lparr>User = ''u'', Message = ''at start'', Time = Start inc1, Type = ActionAcknowledge\<rparr>
        \<in> set (Actions st_acted)
   \<and> \<lparr>User = ''u'', Message = ''at start'', Time = Start inc1, Type = ActionAcknowledge\<rparr>
        \<notin> set (snd (snd (projr (Schedule_GetIncidentEvents sched_acted 1))))
   \<and> Schedule_GetIncidentEvents sched_acted 1
       = Inr (inc1\<lparr>End := Some 5\<rparr>,
              [(mk_event StCritical 2)\<lparr>IncidentId := 1\<rparr>,
               (mk_event StNormal 4)\<lparr>IncidentId := 1\<rparr>],
              [\<lparr>User = ''u'', Message = ''inside'', Time = 3, Type = ActionNone\<rparr>,
               \<lparr>User = ''u'', Message = ''at end'', Time = 5, Type = ActionClose\<rparr>])"
  by (simp add: Schedule_GetIncidentEvents_def Schedule_GetStatus_def sched_acted_def
      st_acted_def st_recovered_def inc1_def incident_action_def mk_event_def Event_zero_def)

text \<open>
  C3, amended. For an incident id in the registry whose owning state is in the store,
  \<^verbatim>\<open>GetIncidentEvents\<close> returns the incident, the first contiguous run of events of
  the state whose \<^verbatim>\<open>IncidentId\<close> is the id, and, in order, exactly the actions of the
  state whose time is strictly after \<^verbatim>\<open>Start\<close> and, when \<^verbatim>\<open>End\<close> is present, at or
  before it. When the owning state is not in the store, both lists are empty.
\<close>

theorem incident_events_and_actions:
  assumes "Incidents s iid = Some incident"
  shows "(\<forall>state. Schedule_GetStatus s (AlertKey incident) = Some state \<longrightarrow>
       Schedule_GetIncidentEvents s iid =
         Inr (incident,
              takeWhile (\<lambda>e. IncidentId e = iid)
                (dropWhile (\<lambda>e. IncidentId e \<noteq> iid) (History state)),
              filter (\<lambda>a. Start incident < Action.Time a
                          \<and> (\<forall>e. End incident = Some e \<longrightarrow> Action.Time a \<le> e))
                (Actions state)))
    \<and> (Schedule_GetStatus s (AlertKey incident) = None \<longrightarrow>
         Schedule_GetIncidentEvents s iid = Inr (incident, [], []))"
proof -
  have "incident_action incident = (\<lambda>a. Start incident < Action.Time a
                          \<and> (\<forall>e. End incident = Some e \<longrightarrow> Action.Time a \<le> e))"
    by (auto simp: incident_action_def fun_eq_iff split: option.splits)
  then show ?thesis using assms
    by (simp add: Schedule_GetIncidentEvents_def incident_events_run)
qed

theorem incident_events_and_actions_witness:
  "Incidents sched_acted 1 = Some (inc1\<lparr>End := Some 5\<rparr>)
   \<and> Schedule_GetStatus sched_acted (AlertKey (inc1\<lparr>End := Some 5\<rparr>)) = Some st_acted
   \<and> Schedule_GetIncidentEvents sched_acted 1
       = Inr (inc1\<lparr>End := Some 5\<rparr>,
              [(mk_event StCritical 2)\<lparr>IncidentId := 1\<rparr>,
               (mk_event StNormal 4)\<lparr>IncidentId := 1\<rparr>],
              [\<lparr>User = ''u'', Message = ''inside'', Time = 3, Type = ActionNone\<rparr>,
               \<lparr>User = ''u'', Message = ''at end'', Time = 5, Type = ActionClose\<rparr>])"
proof -
  have 1: "Incidents sched_acted 1 = Some (inc1\<lparr>End := Some 5\<rparr>)"
    by (simp add: sched_acted_def)
  have 2: "Schedule_GetStatus sched_acted (AlertKey (inc1\<lparr>End := Some 5\<rparr>)) = Some st_acted"
    by (simp add: Schedule_GetStatus_def sched_acted_def inc1_def)
  from incident_events_and_actions [OF 1] 2
  have "Schedule_GetIncidentEvents sched_acted 1 =
         Inr (inc1\<lparr>End := Some 5\<rparr>,
              takeWhile (\<lambda>e. IncidentId e = 1)
                (dropWhile (\<lambda>e. IncidentId e \<noteq> 1) (History st_acted)),
              filter (\<lambda>a. Start (inc1\<lparr>End := Some 5\<rparr>) < Action.Time a
                          \<and> (\<forall>e. End (inc1\<lparr>End := Some 5\<rparr>) = Some e \<longrightarrow> Action.Time a \<le> e))
                (Actions st_acted))"
    by blast
  then show ?thesis using 1 2
    by (simp add: st_acted_def st_recovered_def inc1_def mk_event_def Event_zero_def)
qed

section \<open>Schedule.createHistoricIncidents\<close>

text \<open>\<^verbatim>\<open>incidentList.Less\<close>, on the incidents rather than on their indices.\<close>

definition incidentList_Less :: "Incident \<Rightarrow> Incident \<Rightarrow> bool" where
  "incidentList_Less a b = (if Start a < Start b then True else AlertKey a < AlertKey b)"

text \<open>
  \<^verbatim>\<open>sort.Sort\<close> is the standard library's. It moves elements by \<^verbatim>\<open>Swap\<close> only, and on a
  slice of at most six elements every release of the library runs \<^verbatim>\<open>insertionSort\<close>
  alone: each element in turn is swapped towards the front while \<^verbatim>\<open>Less(j, j-1)\<close>.
  \<open>insert_back\<close> is that inner loop on the reversed sorted prefix.
\<close>

fun insert_back :: "('a \<Rightarrow> 'a \<Rightarrow> bool) \<Rightarrow> 'a \<Rightarrow> 'a list \<Rightarrow> 'a list" where
  "insert_back lt x [] = [x]"
| "insert_back lt x (y # ys) =
     (if lt x y then y # insert_back lt x ys else x # y # ys)"

definition insertionSort :: "('a \<Rightarrow> 'a \<Rightarrow> bool) \<Rightarrow> 'a list \<Rightarrow> 'a list" where
  "insertionSort lt xs = rev (fold (insert_back lt) xs [])"

text \<open>The search for the incident's end: the first close action after the event's time.\<close>

definition find_end :: "Action list \<Rightarrow> Time \<Rightarrow> Time option" where
  "find_end acts t =
     map_option Action.Time (find (\<lambda>action. Type action = ActionClose \<and> Action.Time action > t) acts)"

text \<open>
  Step 1 for one state: the sweep over \<^verbatim>\<open>state.History\<close> with the index \<open>i\<close> and the
  pointer \<^verbatim>\<open>currentIncident\<close> (\<open>None\<close> for nil). An incident is returned with the index
  that the map \<^verbatim>\<open>indexes\<close> records for it; its \<^verbatim>\<open>Id\<close> is still 0.
\<close>

fun new_incidents ::
  "AlertKey \<Rightarrow> Action list \<Rightarrow> Incident option \<Rightarrow> nat \<Rightarrow> Event list \<Rightarrow> (Incident \<times> nat) list" where
  "new_incidents ak acts currentIncident i [] = []"
| "new_incidents ak acts currentIncident i (ev # evs) =
     (if (case currentIncident of
            None \<Rightarrow> False
          | Some c \<Rightarrow> (case End c of None \<Rightarrow> True | Some e \<Rightarrow> Event.Time ev < e))
      then new_incidents ak acts currentIncident (Suc i) evs
      else if Status ev = StNormal
      then new_incidents ak acts None (Suc i) evs
      else
        let c = \<lparr>Id = 0, Start = Event.Time ev, End = find_end acts (Event.Time ev),
                 AlertKey = ak\<rparr>
        in (c, i) # new_incidents ak acts (Some c) (Suc i) evs)"

definition all_new_incidents :: "States \<Rightarrow> (Incident \<times> nat) list" where
  "all_new_incidents states =
     concat (map (\<lambda>(ak, state). new_incidents ak (Actions state) None 0 (History state)) states)"

text \<open>
  Step 3 for one incident: the loop from \<^verbatim>\<open>indexes[incident]\<close> that writes the id into
  the events and breaks at the first event that is not before \<^verbatim>\<open>End\<close>.
\<close>

fun stamp_events :: "Incident \<Rightarrow> Event list \<Rightarrow> Event list" where
  "stamp_events incident [] = []"
| "stamp_events incident (ev # evs) =
     (if (case End incident of None \<Rightarrow> True | Some e \<Rightarrow> Event.Time ev < e)
      then ev\<lparr>IncidentId := Id incident\<rparr> # stamp_events incident evs
      else ev # evs)"

definition link_events :: "Incident \<Rightarrow> nat \<Rightarrow> Event list \<Rightarrow> Event list" where
  "link_events incident idx history = take idx history @ stamp_events incident (drop idx history)"

text \<open>
  One round of the loop of step 3. Every incident comes from an entry of the store, so the
  lookup of its key finds the state; the \<open>None\<close> branch stands for a nil dereference
  that cannot occur.
\<close>

definition assign_incident :: "Incident \<times> nat \<Rightarrow> Schedule \<Rightarrow> Schedule" where
  "assign_incident p s = (case p of (incident0, idx) \<Rightarrow>
     let m = maxIncidentId s + 1;
         incident = incident0\<lparr>Id := m\<rparr>;
         s1 = s\<lparr>maxIncidentId := m\<rparr>;
         s2 = (case map_of (status s1) (AlertKey incident) of
                 None \<Rightarrow> s1
               | Some state \<Rightarrow>
                   put_state (AlertKey incident)
                     (state\<lparr>History := link_events incident idx (History state)\<rparr>) s1)
     in s2\<lparr>Incidents := (Incidents s2)(m \<mapsto> incident)\<rparr>)"

text \<open>
  The method, over the sorting procedure, and with insertion sort for \<^verbatim>\<open>sort.Sort\<close>.
\<close>

definition createHistoricIncidents_with ::
  "((Incident \<times> nat) list \<Rightarrow> (Incident \<times> nat) list) \<Rightarrow> Schedule \<Rightarrow> Schedule" where
  "createHistoricIncidents_with sort_Sort s =
     (let s0 = s\<lparr>Incidents := Map.empty\<rparr>;
          incidents = all_new_incidents (status s0);
          sorted = sort_Sort incidents
      in fold assign_incident sorted s0)"

definition createHistoricIncidents :: "Schedule \<Rightarrow> Schedule" where
  "createHistoricIncidents =
     createHistoricIncidents_with (insertionSort (\<lambda>a b. incidentList_Less (fst a) (fst b)))"

text \<open>The lexicographic order on pairs of a start time and an alert key.\<close>

definition lex_less :: "Time \<times> AlertKey \<Rightarrow> Time \<times> AlertKey \<Rightarrow> bool" where
  "lex_less p q = (fst p < fst q \<or> (fst p = fst q \<and> snd p < snd q))"

text \<open>
  Two alerts, one incident each; the range over the store visits \<^verbatim>\<open>cpu{host=b}\<close> first.
\<close>

definition sched_two :: Schedule where
  "sched_two = \<lparr>status =
       [(''cpu{host=b}'', State_zero\<lparr>Alert := ''cpu'', Group := [(''host'', ''b'')],
            History := [mk_event StWarning 1], Open := True\<rparr>),
        (''cpu{host=a}'', State_zero\<lparr>Alert := ''cpu'', Group := [(''host'', ''a'')],
            History := [mk_event StWarning 2], Open := True\<rparr>)],
     Incidents = Map.empty, Notifications = Map.empty, maxIncidentId = 0\<rparr>"

definition inc_a :: Incident where
  "inc_a = \<lparr>Id = 1, Start = 2, End = None, AlertKey = ''cpu{host=a}''\<rparr>"
definition inc_b :: Incident where
  "inc_b = \<lparr>Id = 2, Start = 1, End = None, AlertKey = ''cpu{host=b}''\<rparr>"

text \<open>A history with an event at the time of the close action that ends the incident.\<close>

definition AK_disk :: AlertKey where "AK_disk = ''disk{h=x}''"

definition close_at_45 :: Action where
  "close_at_45 = \<lparr>User = ''u'', Message = ''done'', Time = 45, Type = ActionClose\<rparr>"

definition st_disk :: State where
  "st_disk = State_zero\<lparr>Alert := ''disk'', Group := [(''h'', ''x'')],
     History := [mk_event StWarning 20, mk_event StNormal 45, mk_event StWarning 50],
     Actions := [close_at_45]\<rparr>"

definition sched_disk :: Schedule where
  "sched_disk = \<lparr>status = [(AK_disk, st_disk)], Incidents = Map.empty,
     Notifications = Map.empty, maxIncidentId = 0\<rparr>"

definition inc_disk :: Incident where
  "inc_disk = \<lparr>Id = 1, Start = 20, End = Some 45, AlertKey = AK_disk\<rparr>"

text \<open>An incident that has an end starts before it.\<close>

definition well_ended :: "Incident \<Rightarrow> bool" where
  "well_ended incident = (case End incident of None \<Rightarrow> True | Some e \<Rightarrow> Start incident < e)"

lemmas disk_defs = AK_disk_def close_at_45_def st_disk_def sched_disk_def inc_disk_def
  State_zero_def mk_event_def Event_zero_def Status_defs ActionType_defs

lemmas reconstruct_defs = createHistoricIncidents_def createHistoricIncidents_with_def
  all_new_incidents_def insertionSort_def incidentList_Less_def assign_incident_def
  put_state_def link_events_def find_end_def Let_def

text \<open>
  C2. The claim is that reconstruction assigns ids in ascending order of
  (\<^verbatim>\<open>Start\<close>, \<^verbatim>\<open>AlertKey\<close>). \<^verbatim>\<open>Less\<close> returns the comparison of the alert keys
  whenever the first start is not before the second, also when it is after it, so it is
  not the lexicographic order. With the incident of \<^verbatim>\<open>cpu{host=b}\<close> starting at 1 and
  that of \<^verbatim>\<open>cpu{host=a}\<close> at 2, the later incident gets id 1 and the earlier id 2.
\<close>

theorem ids_not_in_start_order:
  "Incidents (createHistoricIncidents sched_two) 1 = Some inc_a
   \<and> Incidents (createHistoricIncidents sched_two) 2 = Some inc_b
   \<and> Id inc_a < Id inc_b
   \<and> lex_less (Start inc_b, AlertKey inc_b) (Start inc_a, AlertKey inc_a)
   \<and> \<not> lex_less (Start inc_a, AlertKey inc_a) (Start inc_b, AlertKey inc_b)"
  by (simp add: createHistoricIncidents_def createHistoricIncidents_with_def sched_two_def
      all_new_incidents_def insertionSort_def incidentList_Less_def assign_incident_def
      put_state_def link_events_def find_end_def lex_less_def inc_a_def inc_b_def
      State_zero_def mk_event_def Event_zero_def Status_defs Let_def)

lemma well_ended_Id [simp]: "well_ended (c\<lparr>Id := m\<rparr>) = well_ended c"
  by (simp add: well_ended_def split: option.splits)

lemma find_end_after: "find_end acts t = Some e \<Longrightarrow> t < e"
  by (auto simp: find_end_def find_Some_iff)

lemma new_incidents_well_ended:
  "(c, k) \<in> set (new_incidents ak acts cur i evs) \<Longrightarrow> well_ended c"
proof (induction evs arbitrary: cur i)
  case Nil
  then show ?case by simp
next
  case (Cons ev evs)
  then show ?case
    by (auto simp: Let_def well_ended_def dest: find_end_after split: if_splits option.splits)
qed

lemma all_new_incidents_well_ended:
  "(c, k) \<in> set (all_new_incidents states) \<Longrightarrow> well_ended c"
  by (auto simp: all_new_incidents_def dest: new_incidents_well_ended)

lemma Incidents_assign_incident:
  "Incidents (assign_incident (c, k) s) =
     (Incidents s)(maxIncidentId s + 1 \<mapsto> c\<lparr>Id := maxIncidentId s + 1\<rparr>)"
  by (simp add: assign_incident_def Let_def put_state_def split: option.splits)

lemma fold_assign_well_ended:
  assumes "\<forall>(c, k) \<in> set xs. well_ended c"
    and "\<forall>i c. Incidents s i = Some c \<longrightarrow> well_ended c"
  shows "\<forall>i c. Incidents (fold assign_incident xs s) i = Some c \<longrightarrow> well_ended c"
  using assms
proof (induction xs arbitrary: s)
  case Nil
  then show ?case by simp
next
  case (Cons x xs)
  obtain c k where x: "x = (c, k)" by (cases x)
  have "\<forall>i c'. Incidents (assign_incident x s) i = Some c' \<longrightarrow> well_ended c'"
    using Cons.prems by (auto simp: x Incidents_assign_incident)
  with Cons show ?case by simp
qed

lemma createHistoricIncidents_well_ended:
  assumes "set (sort_Sort (all_new_incidents (status s))) = set (all_new_incidents (status s))"
    and "Incidents (createHistoricIncidents_with sort_Sort s) iid = Some incident"
  shows "well_ended incident"
proof -
  have "\<forall>(c, k) \<in> set (sort_Sort (all_new_incidents (status s))). well_ended c"
    using assms(1) all_new_incidents_well_ended by auto
  from fold_assign_well_ended [OF this, of "s\<lparr>Incidents := Map.empty\<rparr>"] assms(2)
  show ?thesis by (simp add: createHistoricIncidents_with_def Let_def)
qed

lemma stamp_events_at_end:
  "End incident = Some e \<Longrightarrow> k < length evs \<Longrightarrow> Event.Time (evs ! k) = e
    \<Longrightarrow> stamp_events incident evs ! k = evs ! k"
proof (induction evs arbitrary: k)
  case Nil
  then show ?case by simp
next
  case (Cons ev evs)
  then show ?case by (cases k) auto
qed

lemma length_stamp_events [simp]: "length (stamp_events incident evs) = length evs"
  by (induction evs) simp_all

lemma link_events_at_end:
  assumes "End incident = Some e" and "k < length history" and "Event.Time (history ! k) = e"
  shows "link_events incident idx history ! k = history ! k"
proof (cases "k < idx")
  case True
  then show ?thesis using assms by (simp add: link_events_def nth_append)
next
  case False
  then have "idx \<le> k" by simp
  then have "(drop idx history) ! (k - idx) = history ! k" "k - idx < length (drop idx history)"
    using assms(2) by simp_all
  with assms False show ?thesis
    by (simp add: link_events_def nth_append stamp_events_at_end min_def)
qed

lemma set_insert_back: "set (insert_back lt x ys) = insert x (set ys)"
  by (induction ys) auto

lemma set_fold_insert_back: "set (fold (insert_back lt) xs acc) = set xs \<union> set acc"
  by (induction xs arbitrary: acc) (auto simp: set_insert_back)

lemma set_insertionSort: "set (insertionSort lt xs) = set xs"
  by (simp add: insertionSort_def set_fold_insert_back)

lemma stamp_events_changed:
  "End incident = Some e \<Longrightarrow> k < length evs \<Longrightarrow> stamp_events incident evs ! k \<noteq> evs ! k
    \<Longrightarrow> j \<le> k \<Longrightarrow> Event.Time (evs ! j) < e"
proof (induction evs arbitrary: k j)
  case Nil
  then show ?case by simp
next
  case (Cons ev evs)
  show ?case
  proof (cases "Event.Time ev < e")
    case False
    with Cons.prems show ?thesis by simp
  next
    case True
    show ?thesis
    proof (cases j)
      case 0
      with True show ?thesis by simp
    next
      case (Suc j')
      with Cons.prems obtain k' where k: "k = Suc k'" by (cases k) auto
      with Cons.prems True Suc Cons.IH [of k' j'] show ?thesis by simp
    qed
  qed
qed

lemma link_events_changed:
  assumes "End incident = Some e" and "k < length history"
    and "link_events incident idx history ! k \<noteq> history ! k"
    and "idx \<le> j" and "j \<le> k"
  shows "Event.Time (history ! j) < e"
proof -
  have "idx \<le> k" using assms(4,5) by simp
  then have 1: "(drop idx history) ! (k - idx) = history ! k" "k - idx < length (drop idx history)"
    "link_events incident idx history ! k = stamp_events incident (drop idx history) ! (k - idx)"
    using assms(2) by (simp_all add: link_events_def nth_append min_def)
  have 2: "(drop idx history) ! (j - idx) = history ! j"
    using assms(2,4,5) by simp
  from stamp_events_changed [OF assms(1) 1(2), of "j - idx"] 1 2 assms(3,4,5)
  show ?thesis by simp
qed

lemma link_events_before:
  assumes "k < idx" and "k < length history"
  shows "link_events incident idx history ! k = history ! k"
  using assms by (simp add: link_events_def nth_append)

text \<open>
  C5. For an incident of the registry after reconstruction that has an end \<open>e\<close>: the
  stamping loop leaves every event whose time is \<open>e\<close> as it was, and an event it changes
  lies at or after the start index with every event from there up to it strictly before
  \<open>e\<close>; while \<^verbatim>\<open>GetIncidentEvents\<close> returns every action of the owning state whose
  time is \<open>e\<close>. The sorting procedure is any that keeps the set of incidents.
\<close>

theorem end_boundary_asymmetry:
  assumes "set (sort_Sort (all_new_incidents (status s))) = set (all_new_incidents (status s))"
    and "Incidents (createHistoricIncidents_with sort_Sort s) iid = Some incident"
    and "End incident = Some e"
  shows "(\<forall>idx history k. k < length history \<and> Event.Time (history ! k) = e
            \<longrightarrow> link_events incident idx history ! k = history ! k)
    \<and> (\<forall>idx history k. k < length history
            \<and> link_events incident idx history ! k \<noteq> history ! k
            \<longrightarrow> idx \<le> k \<and> (\<forall>j. idx \<le> j \<and> j \<le> k \<longrightarrow> Event.Time (history ! j) < e))
    \<and> (\<forall>state a. Schedule_GetStatus (createHistoricIncidents_with sort_Sort s) (AlertKey incident)
                 = Some state
            \<and> a \<in> set (Actions state) \<and> Action.Time a = e
            \<longrightarrow> (\<exists>evs acts.
                   Schedule_GetIncidentEvents (createHistoricIncidents_with sort_Sort s) iid
                     = Inr (incident, evs, acts)
                   \<and> a \<in> set acts))"
proof (intro conjI allI impI)
  fix idx and history :: "Event list" and k
  assume "k < length history \<and> Event.Time (history ! k) = e"
  then show "link_events incident idx history ! k = history ! k"
    using link_events_at_end [OF assms(3)] by blast
next
  fix idx and history :: "Event list" and k
  assume a: "k < length history \<and> link_events incident idx history ! k \<noteq> history ! k"
  then show "idx \<le> k" using link_events_before [of k idx history incident] by force
next
  fix idx and history :: "Event list" and k j
  assume a: "k < length history \<and> link_events incident idx history ! k \<noteq> history ! k"
    and j: "idx \<le> j \<and> j \<le> k"
  then show "Event.Time (history ! j) < e"
    using link_events_changed [OF assms(3), of k history idx j] by blast
next
  fix state a
  assume a: "Schedule_GetStatus (createHistoricIncidents_with sort_Sort s) (AlertKey incident)
                 = Some state \<and> a \<in> set (Actions state) \<and> Action.Time a = e"
  have "well_ended incident"
    using createHistoricIncidents_well_ended [OF assms(1,2)] .
  then have lt: "Start incident < e" using assms(3) by (simp add: well_ended_def)
  show "\<exists>evs acts.
      Schedule_GetIncidentEvents (createHistoricIncidents_with sort_Sort s) iid
        = Inr (incident, evs, acts) \<and> a \<in> set acts"
    using assms(2,3) lt a
    by (simp add: Schedule_GetIncidentEvents_def incident_action_def)
qed

theorem end_boundary_asymmetry_witness:
  "Incidents (createHistoricIncidents sched_disk) 1 = Some inc_disk
   \<and> End inc_disk = Some 45
   \<and> Schedule_GetStatus (createHistoricIncidents sched_disk) (AlertKey inc_disk)
       = Some (st_disk\<lparr>History := [(mk_event StWarning 20)\<lparr>IncidentId := 1\<rparr>,
            mk_event StNormal 45, (mk_event StWarning 50)\<lparr>IncidentId := 2\<rparr>]\<rparr>)
   \<and> link_events inc_disk 0 (History st_disk) ! 1 = History st_disk ! 1
   \<and> IncidentId (link_events inc_disk 0 (History st_disk) ! 1) = 0
   \<and> close_at_45 \<in> set (Actions st_disk) \<and> Action.Time close_at_45 = 45
   \<and> (\<exists>evs acts. Schedule_GetIncidentEvents (createHistoricIncidents sched_disk) 1
          = Inr (inc_disk, evs, acts) \<and> close_at_45 \<in> set acts)"
proof -
  let ?sort = "insertionSort (\<lambda>a b. incidentList_Less (fst a) (fst b))"
  have 0: "createHistoricIncidents sched_disk = createHistoricIncidents_with ?sort sched_disk"
    by (simp add: createHistoricIncidents_def)
  have 1: "set (?sort (all_new_incidents (status sched_disk)))
      = set (all_new_incidents (status sched_disk))"
    by (rule set_insertionSort)
  have 2: "Incidents (createHistoricIncidents_with ?sort sched_disk) 1 = Some inc_disk"
    by (simp add: reconstruct_defs disk_defs)
  have 3: "End inc_disk = Some 45" by (simp add: inc_disk_def)
  have 4: "Schedule_GetStatus (createHistoricIncidents_with ?sort sched_disk) (AlertKey inc_disk)
       = Some (st_disk\<lparr>History := [(mk_event StWarning 20)\<lparr>IncidentId := 1\<rparr>,
            mk_event StNormal 45, (mk_event StWarning 50)\<lparr>IncidentId := 2\<rparr>]\<rparr>)"
    by (simp add: Schedule_GetStatus_def reconstruct_defs disk_defs)
  have 5: "close_at_45 \<in> set (Actions st_disk)" "Action.Time close_at_45 = 45"
    "length (History st_disk) = 3" "Event.Time (History st_disk ! 1) = 45"
    "IncidentId (History st_disk ! 1) = 0"
    by (simp_all add: disk_defs)
  note T = end_boundary_asymmetry [OF 1 2 3]
  from T 5 have 6: "link_events inc_disk 0 (History st_disk) ! 1 = History st_disk ! 1"
    by simp
  from T 4 5 have 7: "\<exists>evs acts. Schedule_GetIncidentEvents (createHistoricIncidents_with ?sort sched_disk) 1
          = Inr (inc_disk, evs, acts) \<and> close_at_45 \<in> set acts"
    by simp
  show ?thesis unfolding 0 using 2 3 4 5 6 7 by simp
qed

section \<open>State.Copy and the sharing of slices\<close>

text \<open>
  \<^verbatim>\<open>Copy\<close> copies the slice headers of \<^verbatim>\<open>History\<close> and \<^verbatim>\<open>Actions\<close>, so the copy and
  the original share the backing arrays, and it copies the tag map into a new map. What
  an append or a map write through one object does to the other depends on that sharing,
  so here a state is an object in a heap: its slices are headers (backing array, offset,
  length, capacity) into the heap's arrays, its \<^verbatim>\<open>Group\<close> is a reference to a map of
  the heap, and the remaining fields are held by value in \<open>scalars\<close> (whose own
  \<open>History\<close>, \<open>Actions\<close> and \<open>Group\<close> are not read). Addresses from \<open>next_addr\<close>
  on are free. \<open>State_of\<close> reads the object back as a \<open>State\<close>.
\<close>

record Slice =
  sl_arr :: nat
  sl_off :: nat
  sl_len :: nat
  sl_cap :: nat

record Heap =
  event_arrays :: "nat \<Rightarrow> Event list"
  action_arrays :: "nat \<Rightarrow> Action list"
  tag_maps :: "nat \<Rightarrow> TagSet"
  next_addr :: nat

record StateObj =
  scalars :: State
  History_ref :: Slice
  Actions_ref :: Slice
  Group_ref :: nat

definition slice_view :: "(nat \<Rightarrow> 'a list) \<Rightarrow> Slice \<Rightarrow> 'a list" where
  "slice_view arrays sl = take (sl_len sl) (drop (sl_off sl) (arrays (sl_arr sl)))"

definition State_of :: "Heap \<Rightarrow> StateObj \<Rightarrow> State" where
  "State_of h obj = (scalars obj)\<lparr>
     History := slice_view (event_arrays h) (History_ref obj),
     Actions := slice_view (action_arrays h) (Actions_ref obj),
     Group := tag_maps h (Group_ref obj)\<rparr>"

text \<open>
  The built-in \<^verbatim>\<open>append\<close> of one element: with spare capacity it writes into the
  backing array just after the slice and returns the longer header on the same array;
  without, it allocates an array (here of twice the capacity), copies the elements and
  writes the new one. \<open>zero\<close> fills the spare capacity of the new array.
\<close>

definition go_append ::
  "'a \<Rightarrow> (nat \<Rightarrow> 'a list) \<Rightarrow> nat \<Rightarrow> Slice \<Rightarrow> 'a \<Rightarrow> Slice \<times> (nat \<Rightarrow> 'a list) \<times> nat" where
  "go_append zero arrays fresh sl x =
     (if sl_len sl < sl_cap sl
      then (sl\<lparr>sl_len := sl_len sl + 1\<rparr>,
            arrays(sl_arr sl := (arrays (sl_arr sl))[sl_off sl + sl_len sl := x]),
            fresh)
      else
        let newcap = (if sl_cap sl = 0 then 1 else 2 * sl_cap sl)
        in (\<lparr>sl_arr = fresh, sl_off = 0, sl_len = sl_len sl + 1, sl_cap = newcap\<rparr>,
            arrays(fresh := slice_view arrays sl @ [x] @ replicate (newcap - (sl_len sl + 1)) zero),
            Suc fresh))"

definition append_History :: "Event \<Rightarrow> StateObj \<Rightarrow> Heap \<Rightarrow> StateObj \<times> Heap" where
  "append_History ev obj h =
     (case go_append Event_zero (event_arrays h) (next_addr h) (History_ref obj) ev of
        (sl, arrays, fresh) \<Rightarrow>
          (obj\<lparr>History_ref := sl\<rparr>, h\<lparr>event_arrays := arrays, next_addr := fresh\<rparr>))"

text \<open>
  Modelled from the spec: \<^verbatim>\<open>opentsdb.TagSet.Copy\<close> is not among the source files;
  \<^verbatim>\<open>State.Copy()\<close> makes "a tag-map deep copy": a new map with the same bindings.
\<close>

definition TagSet_Copy :: "nat \<Rightarrow> Heap \<Rightarrow> nat \<times> Heap" where
  "TagSet_Copy t h =
     (next_addr h,
      h\<lparr>tag_maps := (tag_maps h)(next_addr h := tag_maps h t), next_addr := Suc (next_addr h)\<rparr>)"

definition State_Copy :: "StateObj \<Rightarrow> Heap \<Rightarrow> StateObj \<times> Heap" where
  "State_Copy s h =
     (case TagSet_Copy (Group_ref s) h of
        (g, h') \<Rightarrow>
          (\<lparr>scalars = scalars s, History_ref = History_ref s, Actions_ref = Actions_ref s,
            Group_ref = g\<rparr>, h'))"

text \<open>Writes to the tag map of an object: \<^verbatim>\<open>obj.Group[k] = v\<close> and \<^verbatim>\<open>delete(obj.Group, k)\<close>.\<close>

definition set_tag :: "StateObj \<Rightarrow> string \<Rightarrow> string \<Rightarrow> Heap \<Rightarrow> Heap" where
  "set_tag obj k v h =
     h\<lparr>tag_maps := (tag_maps h)(Group_ref obj := AList.update k v (tag_maps h (Group_ref obj)))\<rparr>"

definition delete_tag :: "StateObj \<Rightarrow> string \<Rightarrow> Heap \<Rightarrow> Heap" where
  "delete_tag obj k h =
     h\<lparr>tag_maps := (tag_maps h)(Group_ref obj := AList.delete k (tag_maps h (Group_ref obj)))\<rparr>"

text \<open>
  An object of the heap: its slices lie within allocated arrays and its map is allocated.
\<close>

definition valid_slice :: "(nat \<Rightarrow> 'a list) \<Rightarrow> nat \<Rightarrow> Slice \<Rightarrow> bool" where
  "valid_slice arrays fresh sl =
     (sl_len sl \<le> sl_cap sl \<and> sl_off sl + sl_cap sl \<le> length (arrays (sl_arr sl))
      \<and> sl_arr sl < fresh)"

definition valid_obj :: "Heap \<Rightarrow> StateObj \<Rightarrow> bool" where
  "valid_obj h obj =
     (valid_slice (event_arrays h) (next_addr h) (History_ref obj)
      \<and> valid_slice (action_arrays h) (next_addr h) (Actions_ref obj)
      \<and> Group_ref obj < next_addr h)"

definition heap0 :: Heap where
  "heap0 = \<lparr>event_arrays = (\<lambda>_. [])(0 := [mk_event StNormal 1, mk_event StCritical 2,
                                          Event_zero, Event_zero]),
     action_arrays = (\<lambda>_. []),
     tag_maps = (\<lambda>_. [])(2 := [(''host'', ''a'')]),
     next_addr = 3\<rparr>"

definition obj0 :: StateObj where
  "obj0 = \<lparr>scalars = State_zero\<lparr>Alert := ''cpu'', NeedAck := True, Open := True\<rparr>,
     History_ref = \<lparr>sl_arr = 0, sl_off = 0, sl_len = 2, sl_cap = 4\<rparr>,
     Actions_ref = \<lparr>sl_arr = 1, sl_off = 0, sl_len = 0, sl_cap = 0\<rparr>,
     Group_ref = 2\<rparr>"

lemmas heap0_defs = heap0_def obj0_def State_Copy_def TagSet_Copy_def append_History_def
  go_append_def State_of_def slice_view_def set_tag_def State_Last_def valid_obj_def
  valid_slice_def State_zero_def mk_event_def Event_zero_def Status_defs Let_def

lemma go_append_view:
  assumes "valid_slice arrays fresh sl" and "go_append zero arrays fresh sl x = (sl', arrays', fresh')"
  shows "slice_view arrays' sl' = slice_view arrays sl @ [x]"
proof (cases "sl_len sl < sl_cap sl")
  case True
  have n: "sl_off sl + sl_len sl < length (arrays (sl_arr sl))"
    using assms(1) True by (simp add: valid_slice_def)
  have "take (Suc (sl_len sl)) (drop (sl_off sl) ((arrays (sl_arr sl))[sl_off sl + sl_len sl := x]))
      = take (sl_len sl) (drop (sl_off sl) (arrays (sl_arr sl))) @ [x]"
    using n by (simp add: take_Suc_conv_app_nth drop_update_swap)
  with assms(2) True show ?thesis by (auto simp: go_append_def slice_view_def)
next
  case False
  have "length (slice_view arrays sl) = sl_len sl"
    using assms(1) by (auto simp: slice_view_def valid_slice_def min_def)
  with assms(2) False show ?thesis
    by (auto simp: go_append_def Let_def slice_view_def)
qed

lemma go_append_frame:
  assumes "go_append zero arrays fresh sl x = (sl', arrays', fresh')"
    and "sl_arr other < fresh"
    and "sl_arr other = sl_arr sl \<longrightarrow> sl_off other + sl_len other \<le> sl_off sl + sl_len sl
           \<and> sl_off sl \<le> sl_off other"
  shows "slice_view arrays' other = slice_view arrays other"
proof (cases "sl_len sl < sl_cap sl")
  case True
  show ?thesis
  proof (cases "sl_arr other = sl_arr sl")
    case same: True
    obtain d where d: "sl_off other = sl_off sl + d" "d + sl_len other \<le> sl_len sl"
      using assms(3) same by (metis add.commute add_le_cancel_left le_Suc_ex add.assoc)
    have "take (sl_len other) (drop (sl_off other) ((arrays (sl_arr sl))[sl_off sl + sl_len sl := x]))
        = take (sl_len other) (drop (sl_off other) (arrays (sl_arr sl)))"
      using d by (simp add: drop_update_swap)
    with assms(1) True same show ?thesis by (auto simp: go_append_def slice_view_def)
  next
    case False
    with assms(1) True show ?thesis by (auto simp: go_append_def slice_view_def)
  qed
next
  case False
  with assms(1,2) show ?thesis by (auto simp: go_append_def Let_def slice_view_def)
qed

lemma State_Copy_eq:
  "State_Copy s h =
     (s\<lparr>Group_ref := next_addr h\<rparr>,
      h\<lparr>tag_maps := (tag_maps h)(next_addr h := tag_maps h (Group_ref s)),
        next_addr := Suc (next_addr h)\<rparr>)"
  by (simp add: State_Copy_def TagSet_Copy_def)

lemma append_History_self:
  assumes "valid_slice (event_arrays h) (next_addr h) (History_ref obj)"
    and "append_History ev obj h = (obj', h')"
  shows "State_of h' obj' = (State_of h obj)\<lparr>History := History (State_of h obj) @ [ev]\<rparr>"
proof -
  obtain sl arrays fresh where
    g: "go_append Event_zero (event_arrays h) (next_addr h) (History_ref obj) ev = (sl, arrays, fresh)"
    by (cases "go_append Event_zero (event_arrays h) (next_addr h) (History_ref obj) ev")
  from go_append_view [OF assms(1) g] assms(2) g show ?thesis
    by (auto simp: append_History_def State_of_def)
qed

lemma append_History_other:
  assumes "append_History ev obj h = (obj', h')"
    and "History_ref other = History_ref obj"
    and "sl_arr (History_ref obj) < next_addr h"
  shows "State_of h' other = State_of h other"
proof -
  obtain sl arrays fresh where
    g: "go_append Event_zero (event_arrays h) (next_addr h) (History_ref obj) ev = (sl, arrays, fresh)"
    by (cases "go_append Event_zero (event_arrays h) (next_addr h) (History_ref obj) ev")
  have "slice_view arrays (History_ref other) = slice_view (event_arrays h) (History_ref other)"
    using go_append_frame [OF g, of "History_ref other"] assms(2,3) by simp
  with assms(1) g show ?thesis
    by (auto simp: append_History_def State_of_def)
qed

text \<open>
  C8. For a state \<open>s\<close> of the heap and its copy \<open>c\<close>: the copy has the scalar fields and
  the slice headers of the original and reads back as the same state; an append to the
  history of \<open>s\<close> leaves the state read from \<open>c\<close>, and so its history and its
  \<^verbatim>\<open>Last()\<close>, unchanged, and the other way round; and a write to or a delete from the
  tag map of \<open>c\<close> leaves the state read from \<open>s\<close> unchanged.
\<close>

theorem copy_then_append:
  assumes "valid_obj h s" and "State_Copy s h = (c, h1)"
  shows "scalars c = scalars s \<and> History_ref c = History_ref s \<and> Actions_ref c = Actions_ref s
    \<and> State_of h1 c = State_of h s \<and> State_of h1 s = State_of h s
    \<and> (\<forall>ev s' h2. append_History ev s h1 = (s', h2) \<longrightarrow>
          History (State_of h2 s') = History (State_of h1 s) @ [ev]
          \<and> State_of h2 c = State_of h1 c
          \<and> State_Last (State_of h2 c) = State_Last (State_of h1 c))
    \<and> (\<forall>ev c' h2. append_History ev c h1 = (c', h2) \<longrightarrow>
          History (State_of h2 c') = History (State_of h1 c) @ [ev]
          \<and> State_of h2 s = State_of h1 s
          \<and> State_Last (State_of h2 s) = State_Last (State_of h1 s))
    \<and> (\<forall>k v. State_of (set_tag c k v h1) s = State_of h1 s
          \<and> Group (State_of (set_tag c k v h1) c) = AList.update k v (Group (State_of h1 c)))
    \<and> (\<forall>k. State_of (delete_tag c k h1) s = State_of h1 s
          \<and> Group (State_of (delete_tag c k h1) c) = AList.delete k (Group (State_of h1 c)))"
proof -
  have c: "c = s\<lparr>Group_ref := next_addr h\<rparr>"
    and h1: "h1 = h\<lparr>tag_maps := (tag_maps h)(next_addr h := tag_maps h (Group_ref s)),
        next_addr := Suc (next_addr h)\<rparr>"
    using assms(2) by (simp_all add: State_Copy_eq)
  have g: "Group_ref s < next_addr h" "Group_ref s \<noteq> next_addr h"
    using assms(1) by (simp_all add: valid_obj_def)
  have v: "valid_slice (event_arrays h1) (next_addr h1) (History_ref s)"
    "sl_arr (History_ref s) < next_addr h1"
    using assms(1) by (simp_all add: valid_obj_def valid_slice_def h1)
  have 1: "scalars c = scalars s \<and> History_ref c = History_ref s \<and> Actions_ref c = Actions_ref s"
    by (simp add: c)
  have 2: "State_of h1 c = State_of h s" "State_of h1 s = State_of h s"
    using g by (simp_all add: c h1 State_of_def)
  have 3: "History (State_of h2 s') = History (State_of h1 s) @ [ev]
          \<and> State_of h2 c = State_of h1 c
          \<and> State_Last (State_of h2 c) = State_Last (State_of h1 c)"
    if "append_History ev s h1 = (s', h2)" for ev s' h2
    using append_History_self [OF v(1) that] append_History_other [OF that _ v(2), of c] 1
    by simp
  have vc: "valid_slice (event_arrays h1) (next_addr h1) (History_ref c)"
    "sl_arr (History_ref c) < next_addr h1"
    using v 1 by simp_all
  have 4: "History (State_of h2 c') = History (State_of h1 c) @ [ev]
          \<and> State_of h2 s = State_of h1 s
          \<and> State_Last (State_of h2 s) = State_Last (State_of h1 s)"
    if "append_History ev c h1 = (c', h2)" for ev c' h2
    using append_History_self [OF vc(1) that] append_History_other [OF that _ vc(2), of s] 1
    by simp
  have 5: "State_of (set_tag c k v h1) s = State_of h1 s
          \<and> Group (State_of (set_tag c k v h1) c) = AList.update k v (Group (State_of h1 c))"
    for k v
    using g by (simp add: c h1 set_tag_def State_of_def)
  have 6: "State_of (delete_tag c k h1) s = State_of h1 s
          \<and> Group (State_of (delete_tag c k h1) c) = AList.delete k (Group (State_of h1 c))"
    for k
    using g by (simp add: c h1 delete_tag_def State_of_def)
  show ?thesis using 1 2 3 4 5 6 by blast
qed

theorem copy_then_append_witness:
  "valid_obj heap0 obj0
   \<and> State_Last (State_of heap0 obj0) = mk_event StCritical 2
   \<and> State_Last (State_of (snd (append_History (mk_event StNormal 3) obj0 (snd (State_Copy obj0 heap0))))
        (fst (State_Copy obj0 heap0))) = mk_event StCritical 2
   \<and> State_Last (State_of (snd (append_History (mk_event StNormal 3) (fst (State_Copy obj0 heap0))
        (snd (State_Copy obj0 heap0)))) obj0) = mk_event StCritical 2
   \<and> Group (State_of (set_tag (fst (State_Copy obj0 heap0)) ''host'' ''b'' (snd (State_Copy obj0 heap0)))
        obj0) = [(''host'', ''a'')]
   \<and> Group (State_of (set_tag (fst (State_Copy obj0 heap0)) ''host'' ''b'' (snd (State_Copy obj0 heap0)))
        (fst (State_Copy obj0 heap0))) = [(''host'', ''b'')]"
proof -
  have 1: "valid_obj heap0 obj0" by (simp add: heap0_defs)
  have 2: "State_Copy obj0 heap0 = (fst (State_Copy obj0 heap0), snd (State_Copy obj0 heap0))"
    by simp
  have 3: "State_of heap0 obj0 = (scalars obj0)\<lparr>History := [mk_event StNormal 1, mk_event StCritical 2],
      Actions := [], Group := [(''host'', ''a'')]\<rparr>"
    by (simp add: heap0_defs)
  note T = copy_then_append [OF 1 2]
  have 4: "append_History ev x y = (fst (append_History ev x y), snd (append_History ev x y))"
    for ev x y by simp
  from T 4 have a: "State_Last (State_of (snd (append_History (mk_event StNormal 3) obj0 (snd (State_Copy obj0 heap0))))
        (fst (State_Copy obj0 heap0))) = State_Last (State_of heap0 obj0)"
    by metis
  from T 4 have b: "State_Last (State_of (snd (append_History (mk_event StNormal 3) (fst (State_Copy obj0 heap0))
        (snd (State_Copy obj0 heap0)))) obj0) = State_Last (State_of heap0 obj0)"
    by metis
  from T have c: "Group (State_of (set_tag (fst (State_Copy obj0 heap0)) ''host'' ''b'' (snd (State_Copy obj0 heap0)))
        obj0) = Group (State_of heap0 obj0)"
    and d: "Group (State_of (set_tag (fst (State_Copy obj0 heap0)) ''host'' ''b'' (snd (State_Copy obj0 heap0)))
        (fst (State_Copy obj0 heap0))) = AList.update ''host'' ''b'' (Group (State_of heap0 obj0))"
    by simp_all
  have e: "State_Last (State_of heap0 obj0) = mk_event StCritical 2"
    unfolding 3 by (simp add: State_Last_def)
  show ?thesis using 1 a b c d e unfolding 3 by simp
qed

text \<open>
  The theorem is about one append after the copy. With spare capacity, appends through
  both objects in turn write the same cell of the shared array: the second overwrites
  the event the first appended.
\<close>

lemma copy_then_append_both:
  "State_Copy obj0 heap0 = (c, h1) \<Longrightarrow> append_History (mk_event StNormal 3) obj0 h1 = (s', h2)
   \<Longrightarrow> append_History (mk_event StUnknown 4) c h2 = (c', h3)
   \<Longrightarrow> State_Last (State_of h2 s') = mk_event StNormal 3
     \<and> State_Last (State_of h3 s') = mk_event StUnknown 4"
  by (auto simp: heap0_defs)

end
